theory Spec2Isabelle
  imports Main "HOL-Library.Word" "HOL-Library.Multiset"
begin

section \<open>The intern table of the runtime (intern\_table.cc)\<close>

subsection \<open>Strings, pointers and errors\<close>

text \<open>
  A \<open>String*\<close> is either \<open>NULL\<close> or the address of a String object. Addresses are
  natural numbers; \<open>None\<close> is \<open>NULL\<close>. Pointer comparison (\<open>it->second == s\<close>,
  \<open>found == s\<close>) is equality of addresses.
\<close>

type_synonym ref = nat
type_synonym ptr = "ref option"
type_synonym hash = "32 word"

text \<open>
  The code has no recoverable errors. Two ways of stopping are modelled as values: the failed
  \<open>DCHECK(s != NULL)\<close> of \<open>Insert(String*, bool)\<close> (where the check is compiled out, the
  next statement calls \<open>s->GetHashCode()\<close> through the null pointer), and the call of a
  member function through a null pointer (\<open>s->GetHashCode()\<close> in \<open>RegisterStrong\<close> and
  \<open>ContainsWeak\<close>).
\<close>

datatype error = CheckFailed | NullDereference

text \<open>
  Modelled from the spec: class String is declared outside intern\_table.cc. The spec gives it
  a stable, content-derived \<open>hashCode() -> uint32\<close> and a value equality \<open>equals\<close>. Strings are
  immutable, so the heap is a fixed function \<open>chars\<close> from the address of a String object to
  its content, and the hash is a function \<open>hf\<close> of the content. Both are parameters of
  every operation below.
\<close>

definition GetHashCode :: "(ref \<Rightarrow> 'v) \<Rightarrow> ('v \<Rightarrow> hash) \<Rightarrow> ref \<Rightarrow> hash" where
  "GetHashCode chars hf s = hf (chars s)"

definition Equals :: "(ref \<Rightarrow> 'v) \<Rightarrow> ref \<Rightarrow> ref \<Rightarrow> bool" where
  "Equals chars a b \<longleftrightarrow> chars a = chars b"

subsection \<open>The table type\<close>

text \<open>
  Modelled from the spec: the type \<open>Table\<close> is declared in intern\_table.h, which is not among
  the sources. The spec describes a multi-map from a 32-bit hash to string references in
  which several entries may share a key, with no ordering guarantee. The code uses it through
  \<open>find\<close>, \<open>insert\<close>, \<open>erase\<close>, \<open>size\<close> and iteration from \<open>begin()\<close> or from a found
  position to \<open>end()\<close>. A table is the list of its entries in iteration order.
  \<open>table_find\<close> is \<open>table.find(k)\<close>: it gives the part of the table from the first entry
  with key \<open>k\<close> on, and the empty list (\<open>end()\<close>) when there is none; \<open>table_before\<close> is
  the part in front of that position. \<open>table_insert\<close> is \<open>table.insert(make_pair(k, s))\<close>:
  it adds one entry and keeps the other entries in their order. Where the new entry goes in
  the iteration order is not fixed by the spec, so the position is a parameter \<open>place\<close> of
  every operation that inserts (a position beyond the end is the end).
\<close>

type_synonym Table = "(hash \<times> ref) list"
type_synonym placement = "hash \<times> ref \<Rightarrow> Table \<Rightarrow> nat"

definition table_find :: "hash \<Rightarrow> Table \<Rightarrow> Table" where
  "table_find k tab = dropWhile (\<lambda>e. fst e \<noteq> k) tab"

definition table_before :: "hash \<Rightarrow> Table \<Rightarrow> Table" where
  "table_before k tab = takeWhile (\<lambda>e. fst e \<noteq> k) tab"

definition table_insert ::
  "placement \<Rightarrow> hash \<times> ref \<Rightarrow> Table \<Rightarrow> Table" where
  "table_insert place e tab = (let n = place e tab in take n tab @ e # drop n tab)"

text \<open>
  The three tables of the class (the members \<open>strong_interns_\<close>, \<open>weak_interns_\<close> and
  \<open>image_strong_interns_\<close>; the lock is not part of the sequential model).
\<close>

record InternTable =
  strong_interns :: Table
  weak_interns :: Table
  image_strong_interns :: Table

definition InternTable_new :: InternTable where
  "InternTable_new = \<lparr>strong_interns = [], weak_interns = [], image_strong_interns = []\<rparr>"

subsection \<open>Operations\<close>

definition Size :: "InternTable \<Rightarrow> nat" where
  "Size t = length (strong_interns t) + length (weak_interns t)"

text \<open>
  \<open>VisitRoots\<close> calls \<open>visitor(it->second, arg)\<close> for each entry of the strong table in
  iteration order. The visitor acts on what \<open>arg\<close> points to; here it takes that state and
  returns the new one.
\<close>

definition VisitRoots :: "InternTable \<Rightarrow> (ref \<Rightarrow> 'a \<Rightarrow> 'a) \<Rightarrow> 'a \<Rightarrow> 'a" where
  "VisitRoots t visitor arg = fold (\<lambda>it a. visitor (snd it) a) (strong_interns t) arg"

text \<open>The loop of \<open>Lookup\<close>, from the found position to the end of the table.\<close>

fun Lookup_loop :: "(ref \<Rightarrow> 'v) \<Rightarrow> ref \<Rightarrow> Table \<Rightarrow> ptr" where
  "Lookup_loop chars s [] = None"
| "Lookup_loop chars s (it # rest) =
     (let existing_string = snd it
      in if Equals chars existing_string s then Some existing_string
         else Lookup_loop chars s rest)"

definition Lookup :: "(ref \<Rightarrow> 'v) \<Rightarrow> Table \<Rightarrow> ref \<Rightarrow> hash \<Rightarrow> ptr" where
  "Lookup chars table s hash_code = Lookup_loop chars s (table_find hash_code table)"

text \<open>\<open>Insert(Table&, String*, uint32_t)\<close>: the returned pointer and the new table.\<close>

definition Insert_table ::
  "placement \<Rightarrow> Table \<Rightarrow> ref \<Rightarrow> hash \<Rightarrow> ref \<times> Table" where
  "Insert_table place table s hash_code = (s, table_insert place (hash_code, s) table)"

definition RegisterStrong ::
  "(ref \<Rightarrow> 'v) \<Rightarrow> ('v \<Rightarrow> hash) \<Rightarrow> placement \<Rightarrow> InternTable \<Rightarrow> ptr
     \<Rightarrow> error + InternTable" where
  "RegisterStrong chars hf place t p =
     (case p of
        None \<Rightarrow> Inl NullDereference
      | Some s \<Rightarrow>
          Inr (t\<lparr>image_strong_interns :=
                   snd (Insert_table place (image_strong_interns t) s (GetHashCode chars hf s))\<rparr>))"

text \<open>
  The loop of \<open>Remove\<close>: erase the first entry from the found position on whose pointer is
  \<open>s\<close>, and return.
\<close>

fun Remove_loop :: "ref \<Rightarrow> Table \<Rightarrow> Table" where
  "Remove_loop s [] = []"
| "Remove_loop s (it # rest) = (if snd it = s then rest else it # Remove_loop s rest)"

definition Remove :: "Table \<Rightarrow> ref \<Rightarrow> hash \<Rightarrow> Table" where
  "Remove table s hash_code =
     table_before hash_code table @ Remove_loop s (table_find hash_code table)"

text \<open>\<open>Insert(String*, bool)\<close>: the returned pointer and the new state of the three tables.\<close>

definition Insert ::
  "(ref \<Rightarrow> 'v) \<Rightarrow> ('v \<Rightarrow> hash) \<Rightarrow> placement \<Rightarrow> InternTable \<Rightarrow> ptr \<Rightarrow> bool
     \<Rightarrow> error + (ptr \<times> InternTable)" where
  "Insert chars hf place t p is_strong =
     (case p of
        None \<Rightarrow> Inl CheckFailed
      | Some s \<Rightarrow>
          (let hash_code = GetHashCode chars hf s in
           if is_strong then
             (case Lookup chars (strong_interns t) s hash_code of
                Some strong \<Rightarrow> Inr (Some strong, t)
              | None \<Rightarrow>
             (case Lookup chars (image_strong_interns t) s hash_code of
                Some image' \<Rightarrow> Inr (Some image', t)
              | None \<Rightarrow>
             (case Lookup chars (weak_interns t) s hash_code of
                Some weak \<Rightarrow>
                  (let t1 = t\<lparr>weak_interns := Remove (weak_interns t) weak hash_code\<rparr>;
                       (r, tab) = Insert_table place (strong_interns t1) weak hash_code
                   in Inr (Some r, t1\<lparr>strong_interns := tab\<rparr>))
              | None \<Rightarrow>
                  (let (r, tab) = Insert_table place (strong_interns t) s hash_code
                   in Inr (Some r, t\<lparr>strong_interns := tab\<rparr>)))))
           else
             (case Lookup chars (strong_interns t) s hash_code of
                Some strong \<Rightarrow> Inr (Some strong, t)
              | None \<Rightarrow>
             (case Lookup chars (image_strong_interns t) s hash_code of
                Some image' \<Rightarrow> Inr (Some image', t)
              | None \<Rightarrow>
             (case Lookup chars (weak_interns t) s hash_code of
                Some weak \<Rightarrow> Inr (Some weak, t)
              | None \<Rightarrow>
                  (let (r, tab) = Insert_table place (weak_interns t) s hash_code
                   in Inr (Some r, t\<lparr>weak_interns := tab\<rparr>)))))))"

definition InternStrong ::
  "(ref \<Rightarrow> 'v) \<Rightarrow> ('v \<Rightarrow> hash) \<Rightarrow> placement \<Rightarrow> InternTable \<Rightarrow> ptr
     \<Rightarrow> error + (ptr \<times> InternTable)" where
  "InternStrong chars hf place t s = (if s = None then Inr (None, t) else Insert chars hf place t s True)"

definition InternWeak ::
  "(ref \<Rightarrow> 'v) \<Rightarrow> ('v \<Rightarrow> hash) \<Rightarrow> placement \<Rightarrow> InternTable \<Rightarrow> ptr
     \<Rightarrow> error + (ptr \<times> InternTable)" where
  "InternWeak chars hf place t s = (if s = None then Inr (None, t) else Insert chars hf place t s False)"

definition ContainsWeak ::
  "(ref \<Rightarrow> 'v) \<Rightarrow> ('v \<Rightarrow> hash) \<Rightarrow> InternTable \<Rightarrow> ptr \<Rightarrow> error + bool" where
  "ContainsWeak chars hf t p =
     (case p of
        None \<Rightarrow> Inl NullDereference
      | Some s \<Rightarrow>
          (let found = Lookup chars (weak_interns t) s (GetHashCode chars hf s)
           in Inr (found = Some s)))"

text \<open>
  The loop of \<open>SweepInternTableWeaks\<close> over the weak table. \<open>is_marked(object, arg)\<close> may
  act on what \<open>arg\<close> points to: it takes that state and returns its answer with the new
  state. An entry whose object is not marked is erased, the others stay in place.
\<close>

fun Sweep_loop :: "(ref \<Rightarrow> 'a \<Rightarrow> bool \<times> 'a) \<Rightarrow> Table \<Rightarrow> 'a \<Rightarrow> Table \<times> 'a" where
  "Sweep_loop is_marked [] arg = ([], arg)"
| "Sweep_loop is_marked (it # rest) arg =
     (let object = snd it;
          (marked, arg1) = is_marked object arg;
          (rest', arg2) = Sweep_loop is_marked rest arg1
      in if \<not> marked then (rest', arg2) else (it # rest', arg2))"

definition SweepInternTableWeaks ::
  "InternTable \<Rightarrow> (ref \<Rightarrow> 'a \<Rightarrow> bool \<times> 'a) \<Rightarrow> 'a \<Rightarrow> InternTable \<times> 'a" where
  "SweepInternTableWeaks t is_marked arg =
     (let (tab, arg') = Sweep_loop is_marked (weak_interns t) arg
      in (t\<lparr>weak_interns := tab\<rparr>, arg'))"

section \<open>Notions used in the statements\<close>

text \<open>
  The pointers stored in a table, in iteration order.
\<close>

definition refs :: "Table \<Rightarrow> ref list" where
  "refs tab = map snd tab"

text \<open>
  Every entry is stored under the hash code of its own string. All callers of
  \<open>Insert(Table&, String*, uint32_t)\<close> pass \<open>s->GetHashCode()\<close>, or the hash code of a
  string that is value-equal to the one inserted, so every table the operations build has
  this property (\<open>valid_run\<close> below).
\<close>

definition keys_ok :: "(ref \<Rightarrow> 'v) \<Rightarrow> ('v \<Rightarrow> hash) \<Rightarrow> Table \<Rightarrow> bool" where
  "keys_ok chars hf tab \<longleftrightarrow> (\<forall>e\<in>set tab. fst e = GetHashCode chars hf (snd e))"

definition keyed :: "(ref \<Rightarrow> 'v) \<Rightarrow> ('v \<Rightarrow> hash) \<Rightarrow> InternTable \<Rightarrow> bool" where
  "keyed chars hf t \<longleftrightarrow>
     keys_ok chars hf (strong_interns t) \<and> keys_ok chars hf (weak_interns t)
     \<and> keys_ok chars hf (image_strong_interns t)"

text \<open>
  The representation invariant of the dynamic tables: keys as above, and no two entries of
  \<open>strong\<close> and \<open>weak\<close> together hold value-equal strings. It holds for the empty table
  and is kept by every operation, in any order of calls (\<open>valid_new\<close>, \<open>valid_run\<close>).
\<close>

definition valid :: "(ref \<Rightarrow> 'v) \<Rightarrow> ('v \<Rightarrow> hash) \<Rightarrow> InternTable \<Rightarrow> bool" where
  "valid chars hf t \<longleftrightarrow>
     keyed chars hf t
     \<and> distinct (map chars (refs (strong_interns t) @ refs (weak_interns t)))"

text \<open>
  The first entry of a table that is value-equal to \<open>s\<close>, searching the whole table.
  On a table with \<open>keys_ok\<close> this is what \<open>Lookup\<close> returns, although its loop starts
  at \<open>table.find(hash_code)\<close> (\<open>Lookup_first_equal\<close>).
\<close>

definition first_equal :: "(ref \<Rightarrow> 'v) \<Rightarrow> ref \<Rightarrow> Table \<Rightarrow> ptr" where
  "first_equal chars s tab = find (\<lambda>r. chars r = chars s) (refs tab)"

text \<open>
  Invariant I1 in the words of the specification: across \<open>strong\<close> and \<open>image\<close> at
  most one reference represents a content value; no value is in \<open>strong\<close> and in
  \<open>weak\<close> at once; an object in \<open>weak\<close> is not an entry of \<open>strong\<close> or \<open>image\<close>.
\<close>

definition I1 :: "(ref \<Rightarrow> 'v) \<Rightarrow> InternTable \<Rightarrow> bool" where
  "I1 chars t \<longleftrightarrow>
     (\<forall>x\<in>set (refs (strong_interns t)) \<union> set (refs (image_strong_interns t)).
        \<forall>y\<in>set (refs (strong_interns t)) \<union> set (refs (image_strong_interns t)).
          chars x = chars y \<longrightarrow> x = y)
     \<and> (\<forall>x\<in>set (refs (strong_interns t)). \<forall>w\<in>set (refs (weak_interns t)). chars x \<noteq> chars w)
     \<and> (\<forall>w\<in>set (refs (weak_interns t)).
          w \<notin> set (refs (strong_interns t)) \<union> set (refs (image_strong_interns t)))"

text \<open>
  Sequences of calls of the public operations, run from a given state. A run stops at the
  first call that fails. The liveness predicate of a sweep in a run is a pure function.
\<close>

datatype call =
  CallRegisterStrong ptr
| CallInternStrong ptr
| CallInternWeak ptr
| CallSweep "ref \<Rightarrow> bool"

fun apply_call ::
  "(ref \<Rightarrow> 'v) \<Rightarrow> ('v \<Rightarrow> hash) \<Rightarrow> placement \<Rightarrow> call \<Rightarrow> InternTable
     \<Rightarrow> error + InternTable" where
  "apply_call chars hf place (CallRegisterStrong p) t = RegisterStrong chars hf place t p"
| "apply_call chars hf place (CallInternStrong p) t =
     (case InternStrong chars hf place t p of Inl e \<Rightarrow> Inl e | Inr (r, t') \<Rightarrow> Inr t')"
| "apply_call chars hf place (CallInternWeak p) t =
     (case InternWeak chars hf place t p of Inl e \<Rightarrow> Inl e | Inr (r, t') \<Rightarrow> Inr t')"
| "apply_call chars hf place (CallSweep is_marked) t =
     Inr (fst (SweepInternTableWeaks t (\<lambda>object a. (is_marked object, a)) ()))"

fun run ::
  "(ref \<Rightarrow> 'v) \<Rightarrow> ('v \<Rightarrow> hash) \<Rightarrow> placement \<Rightarrow> call list \<Rightarrow> InternTable
     \<Rightarrow> error + InternTable" where
  "run chars hf place [] t = Inr t"
| "run chars hf place (c # cs) t =
     (case apply_call chars hf place c t of Inl e \<Rightarrow> Inl e | Inr t' \<Rightarrow> run chars hf place cs t')"

text \<open>
  The startup discipline of \<open>RegisterStrong\<close>: every call of it comes before the first
  call of \<open>InternStrong\<close> or \<open>InternWeak\<close>. \<open>registered\<close> lists the strings registered
  by a sequence of calls, and \<open>deduplicated\<close> says that registered strings with the same
  content are the same object.
\<close>

fun is_register :: "call \<Rightarrow> bool" where
  "is_register (CallRegisterStrong p) = True"
| "is_register c = False"

fun is_intern :: "call \<Rightarrow> bool" where
  "is_intern (CallInternStrong p) = True"
| "is_intern (CallInternWeak p) = True"
| "is_intern c = False"

fun registers_first :: "call list \<Rightarrow> bool" where
  "registers_first [] = True"
| "registers_first (c # cs) =
     (if is_intern c then \<not> list_ex is_register cs else registers_first cs)"

fun registered :: "call list \<Rightarrow> ref list" where
  "registered [] = []"
| "registered (CallRegisterStrong (Some s) # cs) = s # registered cs"
| "registered (c # cs) = registered cs"

definition deduplicated :: "(ref \<Rightarrow> 'v) \<Rightarrow> call list \<Rightarrow> bool" where
  "deduplicated chars cs \<longleftrightarrow>
     (\<forall>x\<in>set (registered cs). \<forall>y\<in>set (registered cs). chars x = chars y \<longrightarrow> x = y)"

text \<open>
  The inductive strengthening of I1: over all three tables value-equal entries are the same
  object, \<open>weak\<close> shares no object with \<open>strong\<close> or \<open>image\<close>, and no object is twice
  in \<open>weak\<close>.
\<close>

definition canon :: "(ref \<Rightarrow> 'v) \<Rightarrow> ('v \<Rightarrow> hash) \<Rightarrow> InternTable \<Rightarrow> bool" where
  "canon chars hf t \<longleftrightarrow>
     keyed chars hf t
     \<and> inj_on chars (set (refs (strong_interns t)) \<union> set (refs (image_strong_interns t))
          \<union> set (refs (weak_interns t)))
     \<and> set (refs (strong_interns t)) \<inter> set (refs (weak_interns t)) = {}
     \<and> set (refs (image_strong_interns t)) \<inter> set (refs (weak_interns t)) = {}
     \<and> distinct (refs (weak_interns t))"

subsection \<open>An example heap\<close>

text \<open>
  Objects 1 to 3 hold \<open>ab\<close>, 4 and 5 hold \<open>cd\<close>, 6 and 7 hold \<open>xyz\<close>, 8 holds
  \<open>hello\<close> and all later ones hold \<open>cd\<close>. The example hash is the length, so \<open>ab\<close>
  and \<open>cd\<close> collide. The example position is that of an ordered multi-map: a new entry
  goes behind the entries whose key is not greater.
\<close>

definition ex_chars :: "ref \<Rightarrow> string" where
  "ex_chars r =
     (if r \<le> 3 then ''ab'' else if r \<le> 5 then ''cd'' else if r \<le> 7 then ''xyz''
      else if r = 8 then ''hello'' else ''cd'')"

definition ex_hash :: "string \<Rightarrow> hash" where
  "ex_hash v = of_nat (length v)"

definition ex_place :: placement where
  "ex_place e tab = length (takeWhile (\<lambda>x. fst x \<le> fst e) tab)"

definition ex_table :: InternTable where
  "ex_table =
     \<lparr>strong_interns = [(2, 1)], weak_interns = [(2, 4)], image_strong_interns = [(3, 6)]\<rparr>"

definition ex_calls :: "call list" where
  "ex_calls = [CallRegisterStrong (Some 1), CallRegisterStrong (Some 6), CallInternWeak (Some 4),
     CallInternWeak (Some 8), CallInternStrong (Some 5), CallInternStrong (Some 2),
     CallSweep (\<lambda>object. False)]"

text \<open>The equations that evaluate the operations on the example heap.\<close>

lemmas ex_simps = ex_chars_def ex_hash_def ex_place_def ex_table_def table_insert_def keyed_def keys_ok_def refs_def
  GetHashCode_def Equals_def Insert_def Insert_table_def Lookup_def table_find_def table_before_def
  Remove_def InternStrong_def InternWeak_def ContainsWeak_def RegisterStrong_def
  InternTable_new_def

section \<open>Tables\<close>

lemma refs_Nil: "refs [] = []"
  by (simp add: refs_def)

lemma find_None_conv: "find P xs = None \<longleftrightarrow> (\<forall>x\<in>set xs. \<not> P x)"
  by (induction xs) auto

lemma find_SomeD: "find P xs = Some x \<Longrightarrow> x \<in> set xs \<and> P x"
  by (induction xs) (auto split: if_splits)

lemma Lookup_loop_find:
  "Lookup_loop chars s tab = find (\<lambda>r. chars r = chars s) (refs tab)"
  by (induction tab) (simp_all add: refs_def Equals_def Let_def)

lemma Lookup_find:
  "keys_ok chars hf tab \<Longrightarrow>
   Lookup chars tab s (GetHashCode chars hf s) = find (\<lambda>r. chars r = chars s) (refs tab)"
  unfolding Lookup_def Lookup_loop_find table_find_def
  by (induction tab) (auto simp: keys_ok_def refs_def GetHashCode_def)

lemma Lookup_SomeD:
  "Lookup chars tab s k = Some r \<Longrightarrow> r \<in> set (refs tab) \<and> chars r = chars s"
proof -
  assume "Lookup chars tab s k = Some r"
  then have "r \<in> set (refs (table_find k tab)) \<and> chars r = chars s"
    by (auto simp: Lookup_def Lookup_loop_find dest: find_SomeD)
  then show ?thesis
    by (auto simp: refs_def table_find_def dest: set_dropWhileD)
qed

lemma Remove_loop_remove1:
  "keys_ok chars hf tab \<Longrightarrow> Remove_loop w tab = remove1 (GetHashCode chars hf w, w) tab"
  by (induction tab) (auto simp: keys_ok_def)

lemma Remove_remove1:
  "keys_ok chars hf tab \<Longrightarrow>
   Remove tab w (GetHashCode chars hf w) = remove1 (GetHashCode chars hf w, w) tab"
proof (induction tab)
  case Nil
  then show ?case by (simp add: Remove_def table_find_def table_before_def)
next
  case (Cons e tab)
  then have k: "keys_ok chars hf tab" and ke: "fst e = GetHashCode chars hf (snd e)"
    by (simp_all add: keys_ok_def)
  show ?case
  proof (cases "fst e = GetHashCode chars hf w")
    case True
    then show ?thesis
      using Remove_loop_remove1 [OF k, of w]
      by (cases e) (simp add: Remove_def table_find_def table_before_def)
  next
    case False
    then have "snd e \<noteq> w" using ke by auto
    then show ?thesis
      using False Cons.IH [OF k]
      by (cases e) (auto simp add: Remove_def table_find_def table_before_def)
  qed
qed

lemma mset_table_insert: "mset (table_insert place e tab) = add_mset e (mset tab)"
proof -
  have "mset (take n tab) + mset (drop n tab) = mset tab" for n
    by (metis append_take_drop_id mset_append)
  then show ?thesis by (simp add: table_insert_def Let_def)
qed

lemma set_table_insert: "set (table_insert place e tab) = insert e (set tab)"
  using mset_table_insert [of place e tab, THEN arg_cong, of set_mset] by simp

lemma refs_table_insert_mset:
  "mset (refs (table_insert place e tab)) = add_mset (snd e) (mset (refs tab))"
  using mset_table_insert [of place e tab, THEN arg_cong, of "image_mset snd"]
  by (simp add: refs_def)

lemma set_refs_table_insert: "set (refs (table_insert place e tab)) = insert (snd e) (set (refs tab))"
  by (simp add: refs_def set_table_insert)

lemma distinct_refs_table_insert:
  "distinct (refs (table_insert place e tab)) \<longleftrightarrow> snd e \<notin> set (refs tab) \<and> distinct (refs tab)"
proof -
  have "mset (refs (table_insert place e tab)) = mset (snd e # refs tab)"
    by (simp add: refs_table_insert_mset)
  from mset_eq_imp_distinct_iff [OF this] show ?thesis by simp
qed

lemma distinct_refs_remove1: "distinct (refs tab) \<Longrightarrow> distinct (refs (remove1 e tab))"
proof (induction tab)
  case Nil
  then show ?case by simp
next
  case (Cons a tab)
  then show ?case
    using set_remove1_subset [of e tab] by (auto simp: refs_def)
qed

lemma set_refs_remove1_subset: "set (refs (remove1 e tab)) \<subseteq> set (refs tab)"
  using set_remove1_subset [of e tab] by (auto simp: refs_def)

lemma mset_refs_remove1:
  "e \<in> set tab \<Longrightarrow> add_mset (snd e) (mset (refs (remove1 e tab))) = mset (refs tab)"
  by (induction tab) (auto simp: refs_def)

lemma keys_ok_insert:
  "keys_ok chars hf tab \<Longrightarrow> k = GetHashCode chars hf s \<Longrightarrow> keys_ok chars hf (table_insert place (k, s) tab)"
  by (simp add: keys_ok_def set_table_insert)

lemma keys_ok_remove1: "keys_ok chars hf tab \<Longrightarrow> keys_ok chars hf (remove1 e tab)"
  by (auto simp: keys_ok_def dest: notin_set_remove1)

lemma keys_ok_filter: "keys_ok chars hf tab \<Longrightarrow> keys_ok chars hf (filter P tab)"
  by (simp add: keys_ok_def)

lemma refs_entry: "keys_ok chars hf tab \<Longrightarrow> r \<in> set (refs tab) \<Longrightarrow> (GetHashCode chars hf r, r) \<in> set tab"
  by (auto simp: keys_ok_def refs_def)

lemma refs_remove1_absent:
  assumes k: "keys_ok chars hf tab" and d: "distinct (refs tab)"
  shows "w \<notin> set (refs (remove1 (GetHashCode chars hf w, w) tab))"
proof
  let ?e = "(GetHashCode chars hf w, w)"
  assume "w \<in> set (refs (remove1 ?e tab))"
  then obtain h where h: "(h, w) \<in> set (remove1 ?e tab)"
    by (auto simp: refs_def)
  then have "(h, w) \<in> set tab" using notin_set_remove1 by fastforce
  then have "h = GetHashCode chars hf w" using k by (auto simp: keys_ok_def)
  moreover have "distinct tab" using d by (simp add: refs_def distinct_map)
  ultimately show False using h by simp
qed

lemma first_equal_None: "first_equal chars s tab = None \<longleftrightarrow> (\<forall>x\<in>set (refs tab). chars x \<noteq> chars s)"
  by (simp add: first_equal_def find_None_conv)

lemma first_equal_Some: "first_equal chars s tab = Some r \<Longrightarrow> r \<in> set (refs tab) \<and> chars r = chars s"
  by (auto simp: first_equal_def dest: find_SomeD)

lemma first_equal_cong: "chars s' = chars s \<Longrightarrow> first_equal chars s' tab = first_equal chars s tab"
  by (simp add: first_equal_def)

lemma first_equal_insert_fresh:
  assumes "\<forall>x\<in>set (refs tab). chars x = chars s \<longrightarrow> x = s"
  shows "first_equal chars s (table_insert place (k, s) tab) = Some s"
proof (cases "first_equal chars s (table_insert place (k, s) tab)")
  case None
  then show ?thesis by (simp add: first_equal_None set_refs_table_insert)
next
  case (Some x)
  then show ?thesis
    using first_equal_Some [OF Some] assms by (auto simp: set_refs_table_insert)
qed

lemma Lookup_first_equal:
  "keys_ok chars hf tab \<Longrightarrow> Lookup chars tab s (GetHashCode chars hf s) = first_equal chars s tab"
  by (simp add: Lookup_find first_equal_def)

lemma distinct_map_mset_cong: "mset xs = mset ys \<Longrightarrow> distinct (map f xs) = distinct (map f ys)"
  by (metis mset_map mset_eq_imp_distinct_iff)

lemma count_list_distinct: "distinct xs \<Longrightarrow> count_list xs x = (if x \<in> set xs then 1 else 0)"
  by (induction xs) auto

lemma fold_record: "fold (\<lambda>r log. log @ [r]) xs log0 = log0 @ xs"
  by (induction xs arbitrary: log0) simp_all

lemma length_filter_split: "length (filter P xs) + length (filter (\<lambda>x. \<not> P x) xs) = length xs"
  by (induction xs) simp_all

section \<open>The insertion algorithm\<close>

text \<open>
  On keyed tables \<open>Insert(String*, bool)\<close> is the search of the three tables in the order
  strong, image, weak.
\<close>

lemma Insert_strong_eq:
  assumes v: "keyed chars hf t"
  shows "Insert chars hf place t (Some s) True =
     (case first_equal chars s (strong_interns t) of
        Some r \<Rightarrow> Inr (Some r, t)
      | None \<Rightarrow>
     (case first_equal chars s (image_strong_interns t) of
        Some r \<Rightarrow> Inr (Some r, t)
      | None \<Rightarrow>
     (case first_equal chars s (weak_interns t) of
        Some r \<Rightarrow>
          Inr (Some r, t\<lparr>weak_interns := remove1 (GetHashCode chars hf s, r) (weak_interns t),
                          strong_interns := table_insert place (GetHashCode chars hf s, r) (strong_interns t)\<rparr>)
      | None \<Rightarrow>
          Inr (Some s, t\<lparr>strong_interns := table_insert place (GetHashCode chars hf s, s) (strong_interns t)\<rparr>))))"
proof -
  have ks: "keys_ok chars hf (strong_interns t)" and kw: "keys_ok chars hf (weak_interns t)"
    and ki: "keys_ok chars hf (image_strong_interns t)"
    using v by (simp_all add: keyed_def)
  have rm: "Remove (weak_interns t) r (GetHashCode chars hf s)
      = remove1 (GetHashCode chars hf s, r) (weak_interns t)"
    if "first_equal chars s (weak_interns t) = Some r" for r
  proof -
    have "GetHashCode chars hf r = GetHashCode chars hf s"
      using first_equal_Some [OF that] by (simp add: GetHashCode_def)
    then show ?thesis using Remove_remove1 [OF kw, of r] by simp
  qed
  show ?thesis
    by (simp add: Insert_def Let_def Insert_table_def Lookup_first_equal [OF ks]
        Lookup_first_equal [OF ki] Lookup_first_equal [OF kw] rm split: option.split)
qed

lemma Insert_weak_eq:
  assumes v: "keyed chars hf t"
  shows "Insert chars hf place t (Some s) False =
     (case first_equal chars s (strong_interns t) of
        Some r \<Rightarrow> Inr (Some r, t)
      | None \<Rightarrow>
     (case first_equal chars s (image_strong_interns t) of
        Some r \<Rightarrow> Inr (Some r, t)
      | None \<Rightarrow>
     (case first_equal chars s (weak_interns t) of
        Some r \<Rightarrow> Inr (Some r, t)
      | None \<Rightarrow>
          Inr (Some s, t\<lparr>weak_interns := table_insert place (GetHashCode chars hf s, s) (weak_interns t)\<rparr>))))"
proof -
  have ks: "keys_ok chars hf (strong_interns t)" and kw: "keys_ok chars hf (weak_interns t)"
    and ki: "keys_ok chars hf (image_strong_interns t)"
    using v by (simp_all add: keyed_def)
  show ?thesis
    by (simp add: Insert_def Let_def Insert_table_def Lookup_first_equal [OF ks]
        Lookup_first_equal [OF ki] Lookup_first_equal [OF kw] split: option.split)
qed

lemma Insert_strong_cases [consumes 2, case_names found promoted fresh]:
  assumes k: "keyed chars hf t" and i: "Insert chars hf place t (Some s) True = Inr (r, t')"
  obtains
    (found) x where "r = Some x" "t' = t" "chars x = chars s"
      "x \<in> set (refs (strong_interns t)) \<union> set (refs (image_strong_interns t))"
  | (promoted) w where "r = Some w" "chars w = chars s" "w \<in> set (refs (weak_interns t))"
      "first_equal chars s (strong_interns t) = None"
      "first_equal chars s (image_strong_interns t) = None"
      "first_equal chars s (weak_interns t) = Some w"
      "t' = t\<lparr>weak_interns := remove1 (GetHashCode chars hf s, w) (weak_interns t),
              strong_interns := table_insert place (GetHashCode chars hf s, w) (strong_interns t)\<rparr>"
  | (fresh) "r = Some s"
      "first_equal chars s (strong_interns t) = None"
      "first_equal chars s (image_strong_interns t) = None"
      "first_equal chars s (weak_interns t) = None"
      "t' = t\<lparr>strong_interns := table_insert place (GetHashCode chars hf s, s) (strong_interns t)\<rparr>"
proof (cases "first_equal chars s (strong_interns t)")
  case (Some x)
  then show ?thesis
    using i first_equal_Some [OF Some] found [of x]
    by (simp add: Insert_strong_eq [OF k])
next
  case sN: None
  show ?thesis
  proof (cases "first_equal chars s (image_strong_interns t)")
    case (Some x)
    then show ?thesis
      using i sN first_equal_Some [OF Some] found [of x]
      by (simp add: Insert_strong_eq [OF k])
  next
    case iN: None
    show ?thesis
    proof (cases "first_equal chars s (weak_interns t)")
      case (Some w)
      then show ?thesis
        using i sN iN first_equal_Some [OF Some] promoted [of w]
        by (simp add: Insert_strong_eq [OF k])
    next
      case None
      then show ?thesis
        using i sN iN fresh by (simp add: Insert_strong_eq [OF k])
    qed
  qed
qed

lemma Insert_weak_cases [consumes 2, case_names found found_weak fresh]:
  assumes k: "keyed chars hf t" and i: "Insert chars hf place t (Some s) False = Inr (r, t')"
  obtains
    (found) x where "r = Some x" "t' = t" "chars x = chars s"
      "x \<in> set (refs (strong_interns t)) \<union> set (refs (image_strong_interns t))"
  | (found_weak) w where "r = Some w" "t' = t" "chars w = chars s"
      "w \<in> set (refs (weak_interns t))"
      "first_equal chars s (strong_interns t) = None"
      "first_equal chars s (image_strong_interns t) = None"
      "first_equal chars s (weak_interns t) = Some w"
  | (fresh) "r = Some s"
      "first_equal chars s (strong_interns t) = None"
      "first_equal chars s (image_strong_interns t) = None"
      "first_equal chars s (weak_interns t) = None"
      "t' = t\<lparr>weak_interns := table_insert place (GetHashCode chars hf s, s) (weak_interns t)\<rparr>"
proof (cases "first_equal chars s (strong_interns t)")
  case (Some x)
  then show ?thesis
    using i first_equal_Some [OF Some] found [of x]
    by (simp add: Insert_weak_eq [OF k])
next
  case sN: None
  show ?thesis
  proof (cases "first_equal chars s (image_strong_interns t)")
    case (Some x)
    then show ?thesis
      using i sN first_equal_Some [OF Some] found [of x]
      by (simp add: Insert_weak_eq [OF k])
  next
    case iN: None
    show ?thesis
    proof (cases "first_equal chars s (weak_interns t)")
      case (Some w)
      then show ?thesis
        using i sN iN first_equal_Some [OF Some] found_weak [of w]
        by (simp add: Insert_weak_eq [OF k])
    next
      case None
      then show ?thesis
        using i sN iN fresh by (simp add: Insert_weak_eq [OF k])
    qed
  qed
qed

text \<open>
  C1. A strong intern request for a non-null string \<open>s\<close> probes strong, then image, then
  weak. If strong holds a value-equal entry, such an entry is returned and nothing changes;
  otherwise the same for image; otherwise, if weak holds a value-equal entry, that entry is
  removed from weak, inserted into strong and returned; otherwise \<open>s\<close> itself is inserted
  into strong and returned.
\<close>

theorem Insert_strong_priority:
  assumes v: "keyed chars hf t"
  shows "\<exists>r t'. Insert chars hf place t (Some s) True = Inr (Some r, t') \<and>
     (if \<exists>x\<in>set (refs (strong_interns t)). chars x = chars s
      then r \<in> set (refs (strong_interns t)) \<and> chars r = chars s \<and> t' = t
      else if \<exists>x\<in>set (refs (image_strong_interns t)). chars x = chars s
      then r \<in> set (refs (image_strong_interns t)) \<and> chars r = chars s \<and> t' = t
      else if \<exists>x\<in>set (refs (weak_interns t)). chars x = chars s
      then r \<in> set (refs (weak_interns t)) \<and> chars r = chars s \<and>
           t' = t\<lparr>weak_interns := remove1 (GetHashCode chars hf s, r) (weak_interns t),
                  strong_interns := table_insert place (GetHashCode chars hf s, r) (strong_interns t)\<rparr>
      else r = s \<and>
           t' = t\<lparr>strong_interns := table_insert place (GetHashCode chars hf s, s) (strong_interns t)\<rparr>)"
proof (cases "first_equal chars s (strong_interns t)")
  case (Some r)
  then show ?thesis
    using first_equal_Some [OF Some] by (auto simp: Insert_strong_eq [OF v])
next
  case sN: None
  show ?thesis
  proof (cases "first_equal chars s (image_strong_interns t)")
    case (Some r)
    then show ?thesis
      using sN first_equal_Some [OF Some] sN [unfolded first_equal_None]
      by (auto simp: Insert_strong_eq [OF v])
  next
    case iN: None
    show ?thesis
    proof (cases "first_equal chars s (weak_interns t)")
      case (Some r)
      then show ?thesis
        using sN iN first_equal_Some [OF Some] sN [unfolded first_equal_None]
          iN [unfolded first_equal_None]
        by (auto simp: Insert_strong_eq [OF v])
    next
      case None
      then show ?thesis
        using sN iN None [unfolded first_equal_None] sN [unfolded first_equal_None]
          iN [unfolded first_equal_None]
        by (auto simp: Insert_strong_eq [OF v])
    qed
  qed
qed

theorem Insert_strong_priority_witness:
  "keyed ex_chars ex_hash ex_table
   \<and> Insert ex_chars ex_hash ex_place ex_table (Some 2) True = Inr (Some 1, ex_table)
   \<and> Insert ex_chars ex_hash ex_place ex_table (Some 7) True = Inr (Some 6, ex_table)
   \<and> Insert ex_chars ex_hash ex_place ex_table (Some 5) True
       = Inr (Some 4, \<lparr>strong_interns = [(2, 1), (2, 4)], weak_interns = [],
                        image_strong_interns = [(3, 6)]\<rparr>)
   \<and> Insert ex_chars ex_hash ex_place ex_table (Some 8) True
       = Inr (Some 8, \<lparr>strong_interns = [(2, 1), (5, 8)], weak_interns = [(2, 4)],
                        image_strong_interns = [(3, 6)]\<rparr>)"
proof -
  have k: "keyed ex_chars ex_hash ex_table"
    by (simp add: ex_simps)
  show ?thesis
    using k Insert_strong_priority [OF k, where place = ex_place and s = 2] Insert_strong_priority [OF k, where place = ex_place and s = 7]
      Insert_strong_priority [OF k, where place = ex_place and s = 5] Insert_strong_priority [OF k, where place = ex_place and s = 8]
    by (simp add: ex_simps)
qed

text \<open>
  C2. A weak intern request for a non-null string \<open>s\<close> returns a value-equal entry of
  strong if there is one, else of image, else of weak, and changes no table in these three
  cases (in particular nothing is added to weak); only when no table holds a value-equal entry
  is \<open>s\<close> inserted into weak and returned.
\<close>

theorem Insert_weak_priority:
  assumes v: "keyed chars hf t"
  shows "\<exists>r t'. Insert chars hf place t (Some s) False = Inr (Some r, t') \<and>
     (if \<exists>x\<in>set (refs (strong_interns t)). chars x = chars s
      then r \<in> set (refs (strong_interns t)) \<and> chars r = chars s \<and> t' = t
      else if \<exists>x\<in>set (refs (image_strong_interns t)). chars x = chars s
      then r \<in> set (refs (image_strong_interns t)) \<and> chars r = chars s \<and> t' = t
      else if \<exists>x\<in>set (refs (weak_interns t)). chars x = chars s
      then r \<in> set (refs (weak_interns t)) \<and> chars r = chars s \<and> t' = t
      else r = s \<and>
           t' = t\<lparr>weak_interns := table_insert place (GetHashCode chars hf s, s) (weak_interns t)\<rparr>)"
proof (cases "first_equal chars s (strong_interns t)")
  case (Some r)
  then show ?thesis
    using first_equal_Some [OF Some] by (auto simp: Insert_weak_eq [OF v])
next
  case sN: None
  show ?thesis
  proof (cases "first_equal chars s (image_strong_interns t)")
    case (Some r)
    then show ?thesis
      using sN first_equal_Some [OF Some] sN [unfolded first_equal_None]
      by (auto simp: Insert_weak_eq [OF v])
  next
    case iN: None
    show ?thesis
    proof (cases "first_equal chars s (weak_interns t)")
      case (Some r)
      then show ?thesis
        using sN iN first_equal_Some [OF Some] sN [unfolded first_equal_None]
          iN [unfolded first_equal_None]
        by (auto simp: Insert_weak_eq [OF v])
    next
      case None
      then show ?thesis
        using sN iN None [unfolded first_equal_None] sN [unfolded first_equal_None]
          iN [unfolded first_equal_None]
        by (auto simp: Insert_weak_eq [OF v])
    qed
  qed
qed

theorem Insert_weak_priority_witness:
  "keyed ex_chars ex_hash ex_table
   \<and> Insert ex_chars ex_hash ex_place ex_table (Some 2) False = Inr (Some 1, ex_table)
   \<and> Insert ex_chars ex_hash ex_place ex_table (Some 7) False = Inr (Some 6, ex_table)
   \<and> Insert ex_chars ex_hash ex_place ex_table (Some 5) False = Inr (Some 4, ex_table)
   \<and> Insert ex_chars ex_hash ex_place ex_table (Some 8) False
       = Inr (Some 8, \<lparr>strong_interns = [(2, 1)], weak_interns = [(2, 4), (5, 8)],
                        image_strong_interns = [(3, 6)]\<rparr>)"
proof -
  have k: "keyed ex_chars ex_hash ex_table"
    by (simp add: ex_simps)
  show ?thesis
    using k Insert_weak_priority [OF k, where place = ex_place and s = 2] Insert_weak_priority [OF k, where place = ex_place and s = 7]
      Insert_weak_priority [OF k, where place = ex_place and s = 5] Insert_weak_priority [OF k, where place = ex_place and s = 8]
    by (simp add: ex_simps)
qed

section \<open>The representation invariant\<close>

lemma keyed_Insert:
  assumes k: "keyed chars hf t" and i: "Insert chars hf place t (Some s) b = Inr (r, t')"
  shows "keyed chars hf t'"
proof (cases b)
  case True
  then have "Insert chars hf place t (Some s) True = Inr (r, t')" using i by simp
  with k show ?thesis
  proof (cases rule: Insert_strong_cases)
    case (found x)
    then show ?thesis using k by simp
  next
    case (promoted w)
    then have "GetHashCode chars hf s = GetHashCode chars hf w"
      by (simp add: GetHashCode_def)
    then show ?thesis
      using k promoted(7) by (simp add: keyed_def keys_ok_insert keys_ok_remove1)
  next
    case fresh
    then show ?thesis using k by (simp add: keyed_def keys_ok_insert)
  qed
next
  case False
  then have "Insert chars hf place t (Some s) False = Inr (r, t')" using i by simp
  with k show ?thesis
  proof (cases rule: Insert_weak_cases)
    case (found x)
    then show ?thesis using k by simp
  next
    case (found_weak w)
    then show ?thesis using k by simp
  next
    case fresh
    then show ?thesis using k by (simp add: keyed_def keys_ok_insert)
  qed
qed

lemma image_Insert:
  assumes k: "keyed chars hf t" and i: "Insert chars hf place t (Some s) b = Inr (r, t')"
  shows "image_strong_interns t' = image_strong_interns t"
proof (cases b)
  case True
  then have "Insert chars hf place t (Some s) True = Inr (r, t')" using i by simp
  with k show ?thesis
    by (cases rule: Insert_strong_cases) simp_all
next
  case False
  then have "Insert chars hf place t (Some s) False = Inr (r, t')" using i by simp
  with k show ?thesis
    by (cases rule: Insert_weak_cases) simp_all
qed

lemma valid_Insert:
  assumes v: "valid chars hf t" and i: "Insert chars hf place t (Some s) b = Inr (r, t')"
  shows "valid chars hf t'"
proof -
  have k: "keyed chars hf t" using v by (simp add: valid_def)
  have kw: "keys_ok chars hf (weak_interns t)" using k by (simp add: keyed_def)
  have d: "distinct (map chars (refs (strong_interns t) @ refs (weak_interns t)))"
    using v by (simp add: valid_def)
  let ?h = "GetHashCode chars hf s"
  have new_strong: "distinct (map chars (refs (table_insert place (?h, s) (strong_interns t)) @ refs (weak_interns t)))"
    if "first_equal chars s (strong_interns t) = None" "first_equal chars s (weak_interns t) = None"
  proof -
    have "mset (refs (table_insert place (?h, s) (strong_interns t)) @ refs (weak_interns t))
        = mset (s # refs (strong_interns t) @ refs (weak_interns t))"
      by (simp add: refs_table_insert_mset)
    from distinct_map_mset_cong [OF this, of chars] show ?thesis
      using d that by (auto simp: first_equal_None)
  qed
  have new_weak: "distinct (map chars (refs (strong_interns t) @ refs (table_insert place (?h, s) (weak_interns t))))"
    if "first_equal chars s (strong_interns t) = None" "first_equal chars s (weak_interns t) = None"
  proof -
    have "mset (refs (strong_interns t) @ refs (table_insert place (?h, s) (weak_interns t)))
        = mset (s # refs (strong_interns t) @ refs (weak_interns t))"
      by (simp add: refs_table_insert_mset)
    from distinct_map_mset_cong [OF this, of chars] show ?thesis
      using d that by (auto simp: first_equal_None)
  qed
  have promote: "distinct (map chars (refs (table_insert place (?h, w) (strong_interns t))
        @ refs (remove1 (?h, w) (weak_interns t))))"
    if "first_equal chars s (weak_interns t) = Some w" for w
  proof -
    have "GetHashCode chars hf w = ?h" and "w \<in> set (refs (weak_interns t))"
      using first_equal_Some [OF that] by (simp_all add: GetHashCode_def)
    then have "(?h, w) \<in> set (weak_interns t)"
      using refs_entry [OF kw, of w] by simp
    from mset_refs_remove1 [OF this]
    have "mset (refs (table_insert place (?h, w) (strong_interns t)) @ refs (remove1 (?h, w) (weak_interns t)))
        = mset (refs (strong_interns t) @ refs (weak_interns t))"
      by (simp add: refs_table_insert_mset)
    from distinct_map_mset_cong [OF this, of chars] show ?thesis
      using d by simp
  qed
  have "distinct (map chars (refs (strong_interns t') @ refs (weak_interns t')))"
  proof (cases b)
    case True
    then have "Insert chars hf place t (Some s) True = Inr (r, t')" using i by simp
    with k show ?thesis
    proof (cases rule: Insert_strong_cases)
      case (found x)
      then show ?thesis using d by simp
    next
      case (promoted w)
      then show ?thesis using promote [of w] by simp
    next
      case fresh
      then show ?thesis using new_strong by simp
    qed
  next
    case False
    then have "Insert chars hf place t (Some s) False = Inr (r, t')" using i by simp
    with k show ?thesis
    proof (cases rule: Insert_weak_cases)
      case (found x)
      then show ?thesis using d by simp
    next
      case (found_weak w)
      then show ?thesis using d by simp
    next
      case fresh
      then show ?thesis using new_weak by simp
    qed
  qed
  then show ?thesis
    using keyed_Insert [OF k i] by (simp add: valid_def)
qed

lemma Sweep_loop_eq:
  "Sweep_loop (\<lambda>object a. (p object, f object a)) tab arg
     = (filter (\<lambda>e. p (snd e)) tab, fold f (refs tab) arg)"
  by (induction tab arbitrary: arg) (simp_all add: refs_def)

lemma Sweep_pure:
  "fst (SweepInternTableWeaks t (\<lambda>object a. (p object, a)) arg)
     = t\<lparr>weak_interns := filter (\<lambda>e. p (snd e)) (weak_interns t)\<rparr>"
  by (simp add: SweepInternTableWeaks_def Sweep_loop_eq [where f = "\<lambda>object a. a"])

lemma valid_Sweep:
  assumes "valid chars hf t"
  shows "valid chars hf (t\<lparr>weak_interns := filter P (weak_interns t)\<rparr>)"
  using assms
  by (auto simp: valid_def keyed_def keys_ok_filter refs_def distinct_map_filter)

lemma valid_Register:
  assumes "valid chars hf t" and "RegisterStrong chars hf place t p = Inr t'"
  shows "valid chars hf t'"
proof (cases p)
  case None
  then show ?thesis using assms by (simp add: RegisterStrong_def)
next
  case (Some s)
  then have "t' = t\<lparr>image_strong_interns :=
      table_insert place (GetHashCode chars hf s, s) (image_strong_interns t)\<rparr>"
    using assms(2) by (auto simp: RegisterStrong_def Insert_table_def)
  then show ?thesis
    using assms(1) by (simp add: valid_def keyed_def keys_ok_insert)
qed

lemma valid_new: "valid chars hf InternTable_new"
  by (simp add: valid_def keyed_def keys_ok_def InternTable_new_def refs_def)

lemma valid_apply_call:
  assumes "valid chars hf t" and "apply_call chars hf place c t = Inr t'"
  shows "valid chars hf t'"
proof (cases c)
  case (CallRegisterStrong p)
  then show ?thesis using assms valid_Register by auto
next
  case (CallInternStrong p)
  then show ?thesis
    using assms valid_Insert [OF assms(1), where b = True]
    by (cases p) (auto simp: InternStrong_def split: sum.splits)
next
  case (CallInternWeak p)
  then show ?thesis
    using assms valid_Insert [OF assms(1), where b = False]
    by (cases p) (auto simp: InternWeak_def split: sum.splits)
next
  case (CallSweep p)
  then show ?thesis
    using assms valid_Sweep [OF assms(1)] by (auto simp: Sweep_pure)
qed

lemma valid_run: "valid chars hf t \<Longrightarrow> run chars hf place cs t = Inr t' \<Longrightarrow> valid chars hf t'"
proof (induction cs arbitrary: t)
  case Nil
  then show ?case by simp
next
  case (Cons c cs)
  then show ?case
    by (auto split: sum.splits dest: valid_apply_call)
qed

lemma reachable_valid: "run chars hf place cs InternTable_new = Inr t \<Longrightarrow> valid chars hf t"
  by (rule valid_run [OF valid_new])

lemma valid_distinct_strong: "valid chars hf t \<Longrightarrow> distinct (refs (strong_interns t))"
  by (simp add: valid_def distinct_map)

lemma valid_distinct_weak: "valid chars hf t \<Longrightarrow> distinct (refs (weak_interns t))"
  by (simp add: valid_def distinct_map)

lemma VisitRoots_fold: "VisitRoots t visitor arg = fold visitor (refs (strong_interns t)) arg"
  by (simp add: VisitRoots_def refs_def fold_map comp_def)

section \<open>Promotion\<close>

text \<open>
  C3. Let \<open>InternWeak(v)\<close> return the object \<open>w\<close>, and let no entry of strong or image
  be value-equal to \<open>v\<close>. Then \<open>InternStrong(v')\<close> for a value-equal \<open>v'\<close> returns
  \<open>w\<close> itself; afterwards \<open>w\<close> is not in the weak table, \<open>ContainsWeak(w)\<close> is false,
  \<open>w\<close> is in the strong table, and \<open>VisitRoots\<close> passes \<open>w\<close> to the visitor once.
\<close>

theorem promotion_keeps_identity:
  assumes v: "valid chars hf t"
    and iw: "InternWeak chars hf place t (Some v) = Inr (Some w, t1)"
    and e: "chars v' = chars v"
    and n: "\<forall>x\<in>set (refs (strong_interns t1)) \<union> set (refs (image_strong_interns t1)).
              chars x \<noteq> chars v"
  shows "\<exists>t2. InternStrong chars hf place t1 (Some v') = Inr (Some w, t2)
     \<and> ContainsWeak chars hf t2 (Some w) = Inr False
     \<and> w \<notin> set (refs (weak_interns t2))
     \<and> w \<in> set (refs (strong_interns t2))
     \<and> count_list (VisitRoots t2 (\<lambda>r log. log @ [r]) []) w = 1"
proof -
  have k: "keyed chars hf t" using v by (simp add: valid_def)
  have i: "Insert chars hf place t (Some v) False = Inr (Some w, t1)"
    using iw by (simp add: InternWeak_def)
  have v1: "valid chars hf t1" by (rule valid_Insert [OF v i])
  then have k1: "keyed chars hf t1" by (simp add: valid_def)
  have cw: "chars w = chars v"
    using k i by (cases rule: Insert_weak_cases) (simp_all)
  have fw: "first_equal chars v (weak_interns t1) = Some w"
    using k i
  proof (cases rule: Insert_weak_cases)
    case (found x)
    then show ?thesis using n by auto
  next
    case (found_weak u)
    then show ?thesis by simp
  next
    case fresh
    then show ?thesis
      using first_equal_insert_fresh [of "weak_interns t" chars v]
      by (simp add: first_equal_None)
  qed
  let ?h = "GetHashCode chars hf v'"
  let ?t2 = "t1\<lparr>weak_interns := remove1 (?h, w) (weak_interns t1),
                strong_interns := table_insert place (?h, w) (strong_interns t1)\<rparr>"
  have fs: "first_equal chars v' (strong_interns t1) = None"
    and fi: "first_equal chars v' (image_strong_interns t1) = None"
    using n e by (simp_all add: first_equal_None)
  have i2: "Insert chars hf place t1 (Some v') True = Inr (Some w, ?t2)"
    using fs fi fw by (simp add: Insert_strong_eq [OF k1] first_equal_cong [OF e])
  have v2: "valid chars hf ?t2" by (rule valid_Insert [OF v1 i2])
  have hw: "?h = GetHashCode chars hf w"
    using cw e by (simp add: GetHashCode_def)
  have absent: "w \<notin> set (refs (weak_interns ?t2))"
    using refs_remove1_absent [of chars hf "weak_interns t1" w] v1 valid_distinct_weak [OF v1] hw
    by (simp add: valid_def keyed_def)
  have "ContainsWeak chars hf ?t2 (Some w) = Inr False"
    using absent by (auto simp: ContainsWeak_def Let_def dest: Lookup_SomeD)
  moreover have present: "w \<in> set (refs (strong_interns ?t2))"
    by (simp add: set_refs_table_insert)
  moreover have "count_list (VisitRoots ?t2 (\<lambda>r log. log @ [r]) []) w = 1"
    using valid_distinct_strong [OF v2] present
    by (simp add: VisitRoots_fold fold_record count_list_distinct)
  ultimately show ?thesis
    using i2 absent by (auto simp: InternStrong_def)
qed

theorem promotion_keeps_identity_witness:
  "valid ex_chars ex_hash ex_table
   \<and> InternWeak ex_chars ex_hash ex_place ex_table (Some 5) = Inr (Some 4, ex_table)
   \<and> ex_chars 9 = ex_chars 5
   \<and> InternStrong ex_chars ex_hash ex_place ex_table (Some 9)
       = Inr (Some 4, \<lparr>strong_interns = [(2, 1), (2, 4)], weak_interns = [],
                        image_strong_interns = [(3, 6)]\<rparr>)
   \<and> ContainsWeak ex_chars ex_hash \<lparr>strong_interns = [(2, 1), (2, 4)], weak_interns = [],
                        image_strong_interns = [(3, 6)]\<rparr> (Some 4) = Inr False
   \<and> count_list (VisitRoots \<lparr>strong_interns = [(2, 1), (2, 4)], weak_interns = [],
                        image_strong_interns = [(3, 6)]\<rparr> (\<lambda>r log. log @ [r]) []) 4 = 1"
proof -
  have v: "valid ex_chars ex_hash ex_table"
    by (simp add: ex_simps valid_def)
  have w: "InternWeak ex_chars ex_hash ex_place ex_table (Some 5) = Inr (Some 4, ex_table)"
    by (simp add: ex_simps valid_def VisitRoots_def)
  have e: "ex_chars 9 = ex_chars 5" by (simp add: ex_simps valid_def VisitRoots_def)
  have n: "\<forall>x\<in>set (refs (strong_interns ex_table)) \<union> set (refs (image_strong_interns ex_table)).
      ex_chars x \<noteq> ex_chars 5"
    by (simp add: ex_simps valid_def VisitRoots_def)
  show ?thesis
    using v w e promotion_keeps_identity [OF v w e n]
    by (simp add: ex_simps valid_def VisitRoots_def)
qed

section \<open>Canonical uniqueness\<close>

lemma canon_I1: "canon chars hf t \<Longrightarrow> I1 chars t"
  unfolding canon_def I1_def
  by (intro conjI ballI impI) (auto dest: inj_onD)

lemma canon_Insert:
  assumes c: "canon chars hf t" and i: "Insert chars hf place t (Some s) b = Inr (r, t')"
  shows "canon chars hf t'"
proof -
  let ?S = "set (refs (strong_interns t))"
  let ?I = "set (refs (image_strong_interns t))"
  let ?W = "set (refs (weak_interns t))"
  let ?h = "GetHashCode chars hf s"
  have k: "keyed chars hf t" and inj: "inj_on chars (?S \<union> ?I \<union> ?W)"
    and sw: "?S \<inter> ?W = {}" and iw: "?I \<inter> ?W = {}" and dw: "distinct (refs (weak_interns t))"
    using c by (simp_all add: canon_def)
  have k': "keyed chars hf t'" by (rule keyed_Insert [OF k i])
  have fresh_inj: "inj_on chars (insert s (?S \<union> ?I \<union> ?W))" and fresh_out: "s \<notin> ?S \<union> ?I \<union> ?W"
    if "first_equal chars s (strong_interns t) = None"
      "first_equal chars s (image_strong_interns t) = None"
      "first_equal chars s (weak_interns t) = None"
    using that inj by (auto simp: first_equal_None)
  show ?thesis
  proof (cases b)
    case True
    then have "Insert chars hf place t (Some s) True = Inr (r, t')" using i by simp
    with k show ?thesis
    proof (cases rule: Insert_strong_cases)
      case (found x)
      then show ?thesis using c by simp
    next
      case (promoted w)
      have hw: "?h = GetHashCode chars hf w"
        using promoted(2) by (simp add: GetHashCode_def)
      have kw: "keys_ok chars hf (weak_interns t)" using k by (simp add: keyed_def)
      let ?W' = "set (refs (remove1 (?h, w) (weak_interns t)))"
      have sub: "?W' \<subseteq> ?W" by (rule set_refs_remove1_subset)
      have out: "w \<notin> ?W'"
        using refs_remove1_absent [OF kw dw, of w] hw by simp
      have "inj_on chars (insert w ?S \<union> ?I \<union> ?W')"
        by (rule inj_on_subset [OF inj]) (use sub promoted(3) in auto)
      moreover have "insert w ?S \<inter> ?W' = {}" using sub out sw by auto
      moreover have "?I \<inter> ?W' = {}" using sub iw by auto
      moreover have "distinct (refs (remove1 (?h, w) (weak_interns t)))"
        by (rule distinct_refs_remove1 [OF dw])
      ultimately show ?thesis
        using k' by (simp add: canon_def promoted(7) set_refs_table_insert)
    next
      case fresh
      have "inj_on chars (insert s ?S \<union> ?I \<union> ?W)"
        using fresh_inj [OF fresh(2-4)] by (simp add: insert_commute)
      moreover have "insert s ?S \<inter> ?W = {}"
        using fresh_out [OF fresh(2-4)] sw by auto
      ultimately show ?thesis
        using k' iw dw by (simp add: canon_def fresh(5) set_refs_table_insert)
    qed
  next
    case False
    then have "Insert chars hf place t (Some s) False = Inr (r, t')" using i by simp
    with k show ?thesis
    proof (cases rule: Insert_weak_cases)
      case (found x)
      then show ?thesis using c by simp
    next
      case (found_weak w)
      then show ?thesis using c by simp
    next
      case fresh
      have "inj_on chars (?S \<union> ?I \<union> insert s ?W)"
        using fresh_inj [OF fresh(2-4)] by simp
      moreover have "?S \<inter> insert s ?W = {}" "?I \<inter> insert s ?W = {}" "s \<notin> ?W"
        using fresh_out [OF fresh(2-4)] sw iw by auto
      ultimately show ?thesis
        using k' dw by (simp add: canon_def fresh(5) set_refs_table_insert distinct_refs_table_insert)
    qed
  qed
qed

lemma canon_Sweep:
  assumes c: "canon chars hf t"
  shows "canon chars hf (t\<lparr>weak_interns := filter P (weak_interns t)\<rparr>)"
proof -
  have sub: "set (refs (filter P (weak_interns t))) \<subseteq> set (refs (weak_interns t))"
    by (auto simp: refs_def)
  have "inj_on chars (set (refs (strong_interns t)) \<union> set (refs (image_strong_interns t))
      \<union> set (refs (filter P (weak_interns t))))"
    by (rule inj_on_subset [of _ "set (refs (strong_interns t)) \<union> set (refs (image_strong_interns t))
      \<union> set (refs (weak_interns t))"]) (use c sub in \<open>auto simp: canon_def\<close>)
  moreover have "distinct (refs (filter P (weak_interns t)))"
    using c by (simp add: canon_def refs_def distinct_map_filter)
  ultimately show ?thesis
    using c sub by (auto simp: canon_def keyed_def keys_ok_filter)
qed

lemma canon_Register:
  assumes c: "canon chars hf t"
    and e: "strong_interns t = []" "weak_interns t = []"
    and u: "\<forall>x\<in>set (refs (image_strong_interns t)). chars x = chars s \<longrightarrow> x = s"
    and r: "RegisterStrong chars hf place t (Some s) = Inr t'"
  shows "canon chars hf t' \<and> strong_interns t' = [] \<and> weak_interns t' = []
     \<and> set (refs (image_strong_interns t')) = insert s (set (refs (image_strong_interns t)))"
proof -
  have t': "t' = t\<lparr>image_strong_interns :=
      table_insert place (GetHashCode chars hf s, s) (image_strong_interns t)\<rparr>"
    using r by (simp add: RegisterStrong_def Insert_table_def)
  have "inj_on chars (set (refs (image_strong_interns t)))"
    using c e by (simp add: canon_def refs_Nil)
  then have "inj_on chars (insert s (set (refs (image_strong_interns t))))"
    using u by (auto simp: inj_on_def)
  then show ?thesis
    using c e
    by (simp add: t' canon_def keyed_def keys_ok_insert set_refs_table_insert refs_Nil
        del: inj_on_insert)
qed

lemma canon_new: "canon chars hf InternTable_new"
  by (simp add: canon_def keyed_def keys_ok_def InternTable_new_def refs_def)

lemma registered_no_register: "\<not> list_ex is_register cs \<Longrightarrow> registered cs = []"
  by (induction cs rule: registered.induct) simp_all

lemma run_canon:
  assumes "canon chars hf t"
    and "registers_first cs"
    and "list_ex is_register cs \<longrightarrow> strong_interns t = [] \<and> weak_interns t = []"
    and "\<forall>x\<in>set (registered cs) \<union> set (refs (image_strong_interns t)).
         \<forall>y\<in>set (registered cs) \<union> set (refs (image_strong_interns t)).
           chars x = chars y \<longrightarrow> x = y"
    and "run chars hf place cs t = Inr t'"
  shows "canon chars hf t'"
  using assms
proof (induction cs arbitrary: t)
  case Nil
  then show ?case by simp
next
  case (Cons c cs)
  obtain t1 where a: "apply_call chars hf place c t = Inr t1" and r: "run chars hf place cs t1 = Inr t'"
    using Cons.prems(5) by (auto split: sum.splits)
  have k: "keyed chars hf t" using Cons.prems(1) by (simp add: canon_def)
  show ?case
  proof (cases c)
    case (CallRegisterStrong p)
    then obtain s where p: "p = Some s"
      using a by (cases p) (simp_all add: RegisterStrong_def)
    have e: "strong_interns t = []" "weak_interns t = []"
      using Cons.prems(3) CallRegisterStrong by simp_all
    have u: "\<forall>x\<in>set (refs (image_strong_interns t)). chars x = chars s \<longrightarrow> x = s"
      using Cons.prems(4) CallRegisterStrong p by simp
    have reg: "RegisterStrong chars hf place t (Some s) = Inr t1"
      using a CallRegisterStrong p by simp
    note R = canon_Register [OF Cons.prems(1) e u reg]
    show ?thesis
    proof (rule Cons.IH [OF _ _ _ _ r])
      show "canon chars hf t1" using R by simp
      show "registers_first cs" using Cons.prems(2) CallRegisterStrong by simp
      show "list_ex is_register cs \<longrightarrow> strong_interns t1 = [] \<and> weak_interns t1 = []"
        using R by simp
      show "\<forall>x\<in>set (registered cs) \<union> set (refs (image_strong_interns t1)).
         \<forall>y\<in>set (registered cs) \<union> set (refs (image_strong_interns t1)).
           chars x = chars y \<longrightarrow> x = y"
        using Cons.prems(4) R CallRegisterStrong p by auto
    qed
  next
    case (CallSweep P)
    have t1: "t1 = t\<lparr>weak_interns := filter (\<lambda>e. P (snd e)) (weak_interns t)\<rparr>"
      using a CallSweep by (simp add: Sweep_pure)
    show ?thesis
    proof (rule Cons.IH [OF _ _ _ _ r])
      show "canon chars hf t1" unfolding t1 by (rule canon_Sweep [OF Cons.prems(1)])
      show "registers_first cs" using Cons.prems(2) CallSweep by simp
      show "list_ex is_register cs \<longrightarrow> strong_interns t1 = [] \<and> weak_interns t1 = []"
        using Cons.prems(3) CallSweep by (simp add: t1)
      show "\<forall>x\<in>set (registered cs) \<union> set (refs (image_strong_interns t1)).
         \<forall>y\<in>set (registered cs) \<union> set (refs (image_strong_interns t1)).
           chars x = chars y \<longrightarrow> x = y"
        using Cons.prems(4) CallSweep by (simp add: t1)
    qed
  next
    case (CallInternStrong p)
    have nr: "\<not> list_ex is_register cs" using Cons.prems(2) CallInternStrong by simp
    have c1: "canon chars hf t1 \<and> image_strong_interns t1 = image_strong_interns t"
    proof (cases p)
      case None
      then show ?thesis
        using a CallInternStrong Cons.prems(1) by (simp add: InternStrong_def)
    next
      case (Some s)
      then obtain r' where "Insert chars hf place t (Some s) True = Inr (r', t1)"
        using a CallInternStrong by (auto simp: InternStrong_def split: sum.splits)
      then show ?thesis
        using canon_Insert [OF Cons.prems(1)] image_Insert [OF k] by blast
    qed
    show ?thesis
    proof (rule Cons.IH [OF _ _ _ _ r])
      show "canon chars hf t1" using c1 by simp
      show "registers_first cs" using nr by (induction cs) auto
      show "list_ex is_register cs \<longrightarrow> strong_interns t1 = [] \<and> weak_interns t1 = []"
        using nr by simp
      show "\<forall>x\<in>set (registered cs) \<union> set (refs (image_strong_interns t1)).
         \<forall>y\<in>set (registered cs) \<union> set (refs (image_strong_interns t1)).
           chars x = chars y \<longrightarrow> x = y"
        using Cons.prems(4) c1 by (simp add: registered_no_register [OF nr])
    qed
  next
    case (CallInternWeak p)
    have nr: "\<not> list_ex is_register cs" using Cons.prems(2) CallInternWeak by simp
    have c1: "canon chars hf t1 \<and> image_strong_interns t1 = image_strong_interns t"
    proof (cases p)
      case None
      then show ?thesis
        using a CallInternWeak Cons.prems(1) by (simp add: InternWeak_def)
    next
      case (Some s)
      then obtain r' where "Insert chars hf place t (Some s) False = Inr (r', t1)"
        using a CallInternWeak by (auto simp: InternWeak_def split: sum.splits)
      then show ?thesis
        using canon_Insert [OF Cons.prems(1)] image_Insert [OF k] by blast
    qed
    show ?thesis
    proof (rule Cons.IH [OF _ _ _ _ r])
      show "canon chars hf t1" using c1 by simp
      show "registers_first cs" using nr by (induction cs) auto
      show "list_ex is_register cs \<longrightarrow> strong_interns t1 = [] \<and> weak_interns t1 = []"
        using nr by simp
      show "\<forall>x\<in>set (registered cs) \<union> set (refs (image_strong_interns t1)).
         \<forall>y\<in>set (registered cs) \<union> set (refs (image_strong_interns t1)).
           chars x = chars y \<longrightarrow> x = y"
        using Cons.prems(4) c1 by (simp add: registered_no_register [OF nr])
    qed
  qed
qed

text \<open>
  C4, as amended. From the empty table, after any sequence of \<open>RegisterStrong\<close>,
  \<open>InternStrong\<close>, \<open>InternWeak\<close> and sweep calls in which every \<open>RegisterStrong\<close> comes
  before the first intern request and the registered strings are deduplicated (registered
  strings with the same content are the same object), invariant I1 holds. Every prefix of
  such a sequence is such a sequence, so I1 holds at every instant of the run.
\<close>

theorem I1_holds_after_deduplicated_startup:
  assumes "registers_first cs"
    and "deduplicated chars cs"
    and "run chars hf place cs InternTable_new = Inr t"
  shows "I1 chars t"
proof -
  have "canon chars hf t"
  proof (rule run_canon [OF canon_new assms(1) _ _ assms(3)])
    show "list_ex is_register cs \<longrightarrow>
      strong_interns InternTable_new = [] \<and> weak_interns InternTable_new = []"
      by (simp add: InternTable_new_def)
    show "\<forall>x\<in>set (registered cs) \<union> set (refs (image_strong_interns InternTable_new)).
       \<forall>y\<in>set (registered cs) \<union> set (refs (image_strong_interns InternTable_new)).
         chars x = chars y \<longrightarrow> x = y"
      using assms(2) by (simp add: InternTable_new_def refs_def deduplicated_def)
  qed
  then show ?thesis by (rule canon_I1)
qed

theorem I1_holds_after_deduplicated_startup_witness:
  "registers_first ex_calls
   \<and> deduplicated ex_chars ex_calls
   \<and> run ex_chars ex_hash ex_place ex_calls InternTable_new
       = Inr \<lparr>strong_interns = [(2, 4)], weak_interns = [], image_strong_interns = [(2, 1), (3, 6)]\<rparr>
   \<and> I1 ex_chars \<lparr>strong_interns = [(2, 4)], weak_interns = [], image_strong_interns = [(2, 1), (3, 6)]\<rparr>"
proof -
  have f: "registers_first ex_calls"
    by (simp add: ex_calls_def)
  have d: "deduplicated ex_chars ex_calls"
    by (simp add: ex_calls_def ex_simps deduplicated_def)
  have r: "run ex_chars ex_hash ex_place ex_calls InternTable_new
       = Inr \<lparr>strong_interns = [(2, 4)], weak_interns = [], image_strong_interns = [(2, 1), (3, 6)]\<rparr>"
    by (simp add: ex_calls_def ex_simps SweepInternTableWeaks_def)
  show ?thesis
    using f d r I1_holds_after_deduplicated_startup [OF f d r] by simp
qed

text \<open>
  C4 as stated fails: \<open>RegisterStrong\<close> does not look for an equal entry, so two
  value-equal strings registered at startup, before any interning, are both in the image
  table.
\<close>

theorem I1_startup_counterexample:
  "registers_first [CallRegisterStrong (Some 1), CallRegisterStrong (Some 2)]
   \<and> run ex_chars ex_hash ex_place [CallRegisterStrong (Some 1), CallRegisterStrong (Some 2)] InternTable_new
       = Inr \<lparr>strong_interns = [], weak_interns = [], image_strong_interns = [(2, 1), (2, 2)]\<rparr>
   \<and> \<not> I1 ex_chars \<lparr>strong_interns = [], weak_interns = [], image_strong_interns = [(2, 1), (2, 2)]\<rparr>"
  by (simp add: ex_simps I1_def)

section \<open>Collector collaboration\<close>

text \<open>
  C5. \<open>SweepInternTableWeaks\<close> calls \<open>is_marked\<close> once for each weak entry, in
  iteration order: the state the calls act on is the fold of their effects over the entries,
  and a predicate that records its arguments records exactly the weak entries. The entries
  whose object is not marked are erased, the marked ones are kept, the strong and image
  tables are unchanged, and \<open>Size()\<close> goes down by the number of unmarked weak entries.
\<close>

theorem Sweep_erases_unmarked:
  "\<exists>t' arg'. SweepInternTableWeaks t (\<lambda>object a. (p object, f object a)) arg = (t', arg')
     \<and> weak_interns t' = filter (\<lambda>e. p (snd e)) (weak_interns t)
     \<and> strong_interns t' = strong_interns t
     \<and> image_strong_interns t' = image_strong_interns t
     \<and> arg' = fold f (refs (weak_interns t)) arg
     \<and> snd (SweepInternTableWeaks t (\<lambda>object log. (p object, log @ [object])) [])
         = refs (weak_interns t)
     \<and> Size t' + length (filter (\<lambda>e. \<not> p (snd e)) (weak_interns t)) = Size t"
  using length_filter_split [of "\<lambda>e. p (snd e)" "weak_interns t"]
  by (simp add: SweepInternTableWeaks_def Sweep_loop_eq Size_def fold_record)

text \<open>
  C6. \<open>VisitRoots\<close> calls the visitor for the entries of the strong table, one call per
  entry in iteration order. With a visitor that records its arguments: a reference in the
  strong table is visited exactly once, and a reference that is not in the strong table
  (one only in weak or only in image) is never visited.
\<close>

theorem VisitRoots_strong_only:
  assumes "valid chars hf t"
  shows "VisitRoots t visitor arg = fold visitor (refs (strong_interns t)) arg
     \<and> VisitRoots t (\<lambda>r log. log @ [r]) [] = refs (strong_interns t)
     \<and> count_list (VisitRoots t (\<lambda>r log. log @ [r]) []) r
         = (if r \<in> set (refs (strong_interns t)) then 1 else 0)"
  using valid_distinct_strong [OF assms]
  by (simp add: VisitRoots_fold fold_record count_list_distinct)

theorem VisitRoots_strong_only_witness:
  "valid ex_chars ex_hash ex_table
   \<and> VisitRoots ex_table (\<lambda>r log. log @ [r]) [] = [1]
   \<and> count_list (VisitRoots ex_table (\<lambda>r log. log @ [r]) []) 1 = 1
   \<and> count_list (VisitRoots ex_table (\<lambda>r log. log @ [r]) []) 4 = 0
   \<and> count_list (VisitRoots ex_table (\<lambda>r log. log @ [r]) []) 6 = 0"
proof -
  have v: "valid ex_chars ex_hash ex_table"
    by (simp add: ex_simps valid_def)
  show ?thesis
    using v VisitRoots_strong_only [OF v, of "\<lambda>r log. log @ [r]" "[]" 1]
      VisitRoots_strong_only [OF v, of "\<lambda>r log. log @ [r]" "[]" 4]
      VisitRoots_strong_only [OF v, of "\<lambda>r log. log @ [r]" "[]" 6]
    by (simp add: ex_simps valid_def VisitRoots_def)
qed

section \<open>Null arguments\<close>

text \<open>
  C7. \<open>InternStrong(NULL)\<close> and \<open>InternWeak(NULL)\<close> return \<open>NULL\<close>; the state of the
  three tables and \<open>Size()\<close> are unchanged. They do not go through
  \<open>Insert(String*, bool)\<close>, which fails its check on a null argument.
\<close>

theorem Intern_null:
  "(case InternStrong chars hf place t None of
      Inl e \<Rightarrow> False
    | Inr (r, t') \<Rightarrow> r = None \<and> t' = t \<and> Size t' = Size t)
   \<and> (case InternWeak chars hf place t None of
      Inl e \<Rightarrow> False
    | Inr (r, t') \<Rightarrow> r = None \<and> t' = t \<and> Size t' = Size t)
   \<and> Insert chars hf place t None True = Inl CheckFailed
   \<and> Insert chars hf place t None False = Inl CheckFailed"
  by (simp add: InternStrong_def InternWeak_def Insert_def)

text \<open>
  C10. \<open>ContainsWeak\<close> computes \<open>s->GetHashCode()\<close> before anything else: a null argument
  is a null dereference and is not propagated as a result, whereas \<open>InternStrong\<close> and
  \<open>InternWeak\<close> return null for null. For every non-null argument \<open>ContainsWeak\<close> returns
  a boolean.
\<close>

theorem ContainsWeak_null_not_handled:
  "ContainsWeak chars hf t None = Inl NullDereference
   \<and> InternStrong chars hf place t None = Inr (None, t)
   \<and> InternWeak chars hf place t None = Inr (None, t)
   \<and> (\<exists>b. ContainsWeak chars hf t (Some s) = Inr b)"
  by (simp add: ContainsWeak_def InternStrong_def InternWeak_def Let_def)

section \<open>Image precedence\<close>

lemma Size_image: "Size (t\<lparr>image_strong_interns := tab\<rparr>) = Size t"
  by (simp add: Size_def)

text \<open>
  C8, as amended. Let \<open>RegisterStrong(s)\<close> place \<open>s\<close> in the image table, let the image
  table hold no other object value-equal to \<open>s\<close> before that, and let strong hold no
  value-equal entry. Then \<open>InternStrong(s')\<close> for a value-equal \<open>s'\<close> returns \<open>s\<close> and
  leaves all tables as they are; \<open>Size()\<close> is what it was before the registration, since it
  does not count image entries.
\<close>

theorem image_precedence:
  assumes k: "keyed chars hf t"
    and r: "RegisterStrong chars hf place t (Some s) = Inr t1"
    and ns: "\<forall>x\<in>set (refs (strong_interns t1)). chars x \<noteq> chars s"
    and ni: "\<forall>x\<in>set (refs (image_strong_interns t)). chars x = chars s \<longrightarrow> x = s"
    and e: "chars s' = chars s"
  shows "InternStrong chars hf place t1 (Some s') = Inr (Some s, t1)
     \<and> s \<in> set (refs (image_strong_interns t1))
     \<and> Size t1 = Size t"
proof -
  have t1: "t1 = t\<lparr>image_strong_interns :=
      table_insert place (GetHashCode chars hf s, s) (image_strong_interns t)\<rparr>"
    using r by (simp add: RegisterStrong_def Insert_table_def)
  have k1: "keyed chars hf t1"
    using k by (simp add: t1 keyed_def keys_ok_insert)
  have fs: "first_equal chars s' (strong_interns t1) = None"
    using ns e by (simp add: first_equal_None)
  have fi: "first_equal chars s' (image_strong_interns t1) = Some s"
    using first_equal_insert_fresh [OF ni] by (simp add: t1 first_equal_cong [OF e])
  show ?thesis
    using fs fi
    by (simp add: InternStrong_def Insert_strong_eq [OF k1])
       (simp add: t1 Size_image set_refs_table_insert)
qed

theorem image_precedence_witness:
  "keyed ex_chars ex_hash InternTable_new
   \<and> RegisterStrong ex_chars ex_hash ex_place InternTable_new (Some 1)
       = Inr \<lparr>strong_interns = [], weak_interns = [], image_strong_interns = [(2, 1)]\<rparr>
   \<and> ex_chars 2 = ex_chars 1
   \<and> InternStrong ex_chars ex_hash ex_place
        \<lparr>strong_interns = [], weak_interns = [], image_strong_interns = [(2, 1)]\<rparr> (Some 2)
       = Inr (Some 1, \<lparr>strong_interns = [], weak_interns = [], image_strong_interns = [(2, 1)]\<rparr>)
   \<and> Size \<lparr>strong_interns = [], weak_interns = [], image_strong_interns = [(2, 1)]\<rparr>
       = Size InternTable_new"
proof -
  let ?t1 = "\<lparr>strong_interns = [], weak_interns = [], image_strong_interns = [(2, 1)]\<rparr>"
  have k: "keyed ex_chars ex_hash InternTable_new"
    by (simp add: ex_simps Size_def)
  have r: "RegisterStrong ex_chars ex_hash ex_place InternTable_new (Some 1) = Inr ?t1"
    by (simp add: ex_simps Size_def)
  have ns: "\<forall>x\<in>set (refs (strong_interns ?t1)). ex_chars x \<noteq> ex_chars 1"
    by (simp add: ex_simps Size_def)
  have ni: "\<forall>x\<in>set (refs (image_strong_interns InternTable_new)). ex_chars x = ex_chars 1 \<longrightarrow> x = 1"
    by (simp add: ex_simps Size_def)
  have e: "ex_chars 2 = ex_chars 1"
    by (simp add: ex_simps Size_def)
  show ?thesis
    using k r e image_precedence [OF k r ns ni e]
    by simp
qed

text \<open>
  C8 as stated fails: \<open>RegisterStrong\<close> does not look for an equal entry, and when the
  image table already holds a value-equal object, \<open>InternStrong\<close> returns that one and not
  the string registered last.
\<close>

theorem image_precedence_counterexample:
  "RegisterStrong ex_chars ex_hash ex_place
      \<lparr>strong_interns = [], weak_interns = [], image_strong_interns = [(2, 1)]\<rparr> (Some 2)
     = Inr \<lparr>strong_interns = [], weak_interns = [], image_strong_interns = [(2, 1), (2, 2)]\<rparr>
   \<and> ex_chars 3 = ex_chars 2
   \<and> InternStrong ex_chars ex_hash ex_place
        \<lparr>strong_interns = [], weak_interns = [], image_strong_interns = [(2, 1), (2, 2)]\<rparr> (Some 3)
       = Inr (Some 1, \<lparr>strong_interns = [], weak_interns = [], image_strong_interns = [(2, 1), (2, 2)]\<rparr>)
   \<and> Some (1::nat) \<noteq> Some 2"
  by (simp add: ex_simps)

section \<open>Weak membership\<close>

text \<open>
  C9. For a non-null \<open>s\<close>, \<open>ContainsWeak(s)\<close> is true only if \<open>s\<close> itself is an entry of
  the weak table: a value-equal entry at another address does not make it true.
\<close>

theorem ContainsWeak_identity:
  "\<exists>b. ContainsWeak chars hf t (Some s) = Inr b \<and> (b \<longrightarrow> s \<in> set (refs (weak_interns t)))"
  by (auto simp: ContainsWeak_def Let_def dest: Lookup_SomeD)

theorem ContainsWeak_identity_witness:
  "ContainsWeak ex_chars ex_hash ex_table (Some 4) = Inr True
   \<and> 4 \<in> set (refs (weak_interns ex_table))
   \<and> ex_chars 5 = ex_chars 4
   \<and> ContainsWeak ex_chars ex_hash ex_table (Some 5) = Inr False"
  using ContainsWeak_identity [of ex_chars ex_hash ex_table 4]
  by (simp add: ex_simps)

end
